theory Spec2Isabelle
  imports Main
begin

section \<open>Python list slicing\<close>

text \<open>
  \<^verbatim>\<open>xs[:k]\<close> and \<^verbatim>\<open>xs[k:]\<close> for a Python int \<open>k\<close>: a negative bound counts from the
  end of the list, and every bound is clamped to the range \<open>0 .. len(xs)\<close>. Both build a
  new list and never raise.
\<close>

definition slice_to :: "'a list \<Rightarrow> int \<Rightarrow> 'a list" where
  "slice_to xs k =
     (let n = int (length xs);
          stop = (if k < 0 then max 0 (n + k) else min k n)
      in take (nat stop) xs)"

definition slice_from :: "'a list \<Rightarrow> int \<Rightarrow> 'a list" where
  "slice_from xs k =
     (let n = int (length xs);
          start = (if k < 0 then max 0 (n + k) else min k n)
      in drop (nat start) xs)"

section \<open>The chunker\<close>

text \<open>
  \<^verbatim>\<open>generate_composition_chunks\<close> (the same text in both source files) is a generator:
  \<^verbatim>\<open>while len(slices): chunk = slices[:chunk_size]; yield chunk; slices = slices[chunk_size:]\<close>.
  The model collects the chunks it yields, in order. The loop has no exit when the list stays
  non-empty, so the function is partial: \<open>None\<close> is the generator that never finishes.
\<close>

partial_function (option) generate_composition_chunks ::
    "'a list \<Rightarrow> int \<Rightarrow> 'a list list option" where
  "generate_composition_chunks slices chunk_size =
     (if length slices \<noteq> 0
      then (let chunk = slice_to slices chunk_size
            in Option.bind
                 (generate_composition_chunks (slice_from slices chunk_size) chunk_size)
                 (\<lambda>rest. Some (chunk # rest)))
      else Some [])"

declare generate_composition_chunks.simps [code]

text \<open>The default of the parameter \<^verbatim>\<open>chunk_size\<close>, which \<^verbatim>\<open>compose\<close> never overrides.\<close>

definition default_chunk_size :: int where
  "default_chunk_size = 31"

section \<open>Blobs, the storage gateway and the observable events\<close>

text \<open>
  A \<^verbatim>\<open>storage.Blob\<close> is a reference to the stored object at a path: two blobs with the
  same path denote the same stored object, and \<^verbatim>\<open>storage.Blob.from_string(object_path)\<close>
  is the blob of \<open>object_path\<close>. The library's check of the form of the path is not part
  of the model.
\<close>

datatype blob = Blob string

datatype error = UploadFailed | ComposeFailed | InvalidInputCount

text \<open>
  What a run does to the outside world, in program order. Durations are in milliseconds:
  \<^verbatim>\<open>sleep(1)\<close> is \<open>EvSleep 1000\<close> and \<^verbatim>\<open>sleep(.005)\<close> is \<open>EvSleep 5\<close>.
\<close>

datatype event =
    EvUpload blob
  | EvCompose blob "blob list"
  | EvComposeDone
  | EvDispatch "blob list"
  | EvSubmit blob
  | EvSleep nat

text \<open>
  The storage client is outside the repository. A gateway gives, for each of the two calls
  \<^verbatim>\<open>compose\<close> makes on the accumulator, the outcome (\<open>Some e\<close> when the call raises) and
  the next state of the storage service.
\<close>

record 's gateway =
  upload_from_file :: "blob \<Rightarrow> 's \<Rightarrow> error option \<times> 's"
  compose_call :: "blob \<Rightarrow> blob list \<Rightarrow> 's \<Rightarrow> error option \<times> 's"

section \<open>src/single-accumulator.py\<close>

text \<open>
  \<^verbatim>\<open>delete_objects_concurrent(blobs, executor, client)\<close>: one \<^verbatim>\<open>executor.submit(blob.delete)\<close>
  and one \<^verbatim>\<open>sleep(.005)\<close> per blob, in list order. The deletions themselves run on the
  executor's threads; the model records the hand-over only (\<open>EvDispatch\<close> for the call,
  \<open>EvSubmit\<close> for each task), and the executor takes every task.
\<close>

primrec submit_all :: "blob list \<Rightarrow> event list" where
  "submit_all [] = []"
| "submit_all (b # bs) = EvSubmit b # EvSleep 5 # submit_all bs"

definition delete_objects_concurrent :: "blob list \<Rightarrow> event list" where
  "delete_objects_concurrent blobs = EvDispatch blobs # submit_all blobs"

text \<open>
  The \<^verbatim>\<open>for chunk in ...\<close> loop of \<^verbatim>\<open>compose\<close>, over the chunks the generator yields:
  \<^verbatim>\<open>chunk.insert(0, final_blob)\<close>, \<^verbatim>\<open>final_blob.compose(chunk)\<close>,
  \<^verbatim>\<open>delete_objects_concurrent(chunk[1:], ...)\<close>, \<^verbatim>\<open>sleep(1)\<close>. An exception of the
  gateway call leaves the loop at once. The result is the outcome, the state of the storage
  service and the events of the loop.
\<close>

fun compose_loop ::
    "'s gateway \<Rightarrow> blob \<Rightarrow> blob list list \<Rightarrow> 's \<Rightarrow> error option \<times> 's \<times> event list" where
  "compose_loop gw final_blob [] s = (None, s, [])"
| "compose_loop gw final_blob (chunk # rest) s =
     (let inputs = final_blob # chunk
      in case compose_call gw final_blob inputs s of
           (Some e, s') \<Rightarrow> (Some e, s', [EvCompose final_blob inputs])
         | (None, s') \<Rightarrow>
             (case compose_loop gw final_blob rest s' of
                (r, s'', tr) \<Rightarrow>
                  (r, s'',
                   [EvCompose final_blob inputs, EvComposeDone]
                   @ delete_objects_concurrent (slice_from inputs 1)
                   @ [EvSleep 1000] @ tr)))"

definition compose ::
    "'s gateway \<Rightarrow> string \<Rightarrow> blob list \<Rightarrow> 's \<Rightarrow> ((error + blob) \<times> 's \<times> event list) option" where
  "compose gw object_path slices s =
     (let final_blob = Blob object_path
      in case upload_from_file gw final_blob s of
           (Some e, s1) \<Rightarrow> Some (Inl e, s1, [EvUpload final_blob])
         | (None, s1) \<Rightarrow>
             Option.bind (generate_composition_chunks slices default_chunk_size)
               (\<lambda>chunks.
                  case compose_loop gw final_blob chunks s1 of
                    (Some e, s2, tr) \<Rightarrow> Some (Inl e, s2, EvUpload final_blob # tr)
                  | (None, s2, tr) \<Rightarrow> Some (Inr final_blob, s2, EvUpload final_blob # tr)))"

section \<open>src/list-files.py\<close>



section \<open>Reading a trace\<close>

fun compose_calls :: "event list \<Rightarrow> (blob \<times> blob list) list" where
  "compose_calls [] = []"
| "compose_calls (EvCompose t ins # tr) = (t, ins) # compose_calls tr"
| "compose_calls (_ # tr) = compose_calls tr"

fun batches :: "event list \<Rightarrow> blob list list" where
  "batches [] = []"
| "batches (EvDispatch bs # tr) = bs # batches tr"
| "batches (_ # tr) = batches tr"

fun submitted :: "event list \<Rightarrow> blob list" where
  "submitted [] = []"
| "submitted (EvSubmit b # tr) = b # submitted tr"
| "submitted (_ # tr) = submitted tr"

fun slept :: "event list \<Rightarrow> nat" where
  "slept [] = 0"
| "slept (EvSleep d # tr) = d + slept tr"
| "slept (_ # tr) = slept tr"

text \<open>The events of one iteration of the loop whose gateway call returns.\<close>

definition iteration_events :: "blob \<Rightarrow> blob list \<Rightarrow> event list" where
  "iteration_events final_blob chunk =
     [EvCompose final_blob (final_blob # chunk), EvComposeDone]
     @ delete_objects_concurrent chunk @ [EvSleep 1000]"

text \<open>
  The time at which each gateway compose call is issued, on a clock that starts at \<open>t\<close> and
  that only the sleeps advance: a lower bound of the real time between two calls, whatever
  the calls themselves take.
\<close>

fun call_times :: "nat \<Rightarrow> event list \<Rightarrow> nat list" where
  "call_times t [] = []"
| "call_times t (EvCompose b ins # tr) = t # call_times t tr"
| "call_times t (EvSleep d # tr) = call_times (t + d) tr"
| "call_times t (_ # tr) = call_times t tr"

text \<open>A trace without the events of \<^verbatim>\<open>delete_objects_concurrent\<close>.\<close>

fun is_cleanup :: "event \<Rightarrow> bool" where
  "is_cleanup (EvDispatch bs) = True"
| "is_cleanup (EvSubmit b) = True"
| "is_cleanup (EvSleep d) = (d = 5)"
| "is_cleanup _ = False"

definition without_cleanup :: "event list \<Rightarrow> event list" where
  "without_cleanup tr = filter (\<lambda>e. \<not> is_cleanup e) tr"

section \<open>The storage service of the specification\<close>

text \<open>
  Modelled from the spec: the Storage Gateway of section 6 (the storage client library, which
  is not part of the repository). \<open>createEmpty(path)\<close> creates or overwrites an empty object;
  \<open>compose(target, orderedInputs)\<close> replaces the content of \<open>target\<close> with the concatenation
  of the contents of \<open>orderedInputs\<close> in order, and fails with \<open>InvalidInputCount\<close> when there
  are more than \<open>providerLimit + 1\<close> inputs. The service may also reject a compose call
  (\<open>ComposeFailed\<close>): \<open>fails n\<close> says whether it rejects call number \<open>n\<close> (from 0). A call
  that fails changes no content.
\<close>

record gstate =
  store :: "blob \<Rightarrow> string"
  ncalls :: nat

definition spec_gateway :: "(nat \<Rightarrow> bool) \<Rightarrow> nat \<Rightarrow> gstate gateway" where
  "spec_gateway fails provider_limit =
     \<lparr> upload_from_file = (\<lambda>b s. (None, s\<lparr>store := (store s)(b := [])\<rparr>)),
       compose_call = (\<lambda>target inputs s.
         if provider_limit + 1 < length inputs
         then (Some InvalidInputCount, s\<lparr>ncalls := Suc (ncalls s)\<rparr>)
         else if fails (ncalls s)
         then (Some ComposeFailed, s\<lparr>ncalls := Suc (ncalls s)\<rparr>)
         else (None, s\<lparr>store := (store s)(target := concat (map (store s) inputs)),
                        ncalls := Suc (ncalls s)\<rparr>)) \<rparr>"

text \<open>
  Two storage services to run examples on: one in which every object is empty, and one in
  which the content of every object is its own path. No call has been made on either.
\<close>

definition empty_service :: gstate where
  "empty_service = \<lparr>store = (\<lambda>b. []), ncalls = 0\<rparr>"


text \<open>Which compose calls the service rejects: none, or call number \<open>i\<close> alone.\<close>

definition no_failure :: "nat \<Rightarrow> bool" where
  "no_failure n = False"

definition fails_at :: "nat \<Rightarrow> nat \<Rightarrow> bool" where
  "fails_at i n = (n = i)"

text \<open>The parts of the result of a run.\<close>

definition outcome_of :: "('r \<times> 'x \<times> event list) option \<Rightarrow> 'r option" where
  "outcome_of run = (case run of None \<Rightarrow> None | Some (r, x, tr) \<Rightarrow> Some r)"

definition trace_of :: "('r \<times> 'x \<times> event list) option \<Rightarrow> event list" where
  "trace_of run = (case run of None \<Rightarrow> [] | Some (r, x, tr) \<Rightarrow> tr)"


section \<open>The lists of a run as objects\<close>

text \<open>
  Python lists are mutable objects, and \<^verbatim>\<open>compose\<close> changes one in place
  (\<^verbatim>\<open>chunk.insert(0, final_blob)\<close>). To see which list that is, the lists live in a heap:
  a variable holds an address, a slice allocates a new list, \<^verbatim>\<open>insert\<close> writes the list at
  an address.
\<close>

record heap =
  cells :: "nat \<Rightarrow> blob list"
  next_free :: nat

definition new_list :: "blob list \<Rightarrow> heap \<Rightarrow> nat \<times> heap" where
  "new_list xs h =
     (next_free h, h\<lparr>cells := (cells h)(next_free h := xs), next_free := Suc (next_free h)\<rparr>)"

definition list_insert0 :: "nat \<Rightarrow> blob \<Rightarrow> heap \<Rightarrow> heap" where
  "list_insert0 a x h = h\<lparr>cells := (cells h)(a := x # cells h a)\<rparr>"

text \<open>
  The generator and the loop of \<^verbatim>\<open>compose\<close> in src/single-accumulator.py, interleaved as
  they run: the generator slices \<^verbatim>\<open>chunk\<close> off the list its variable \<^verbatim>\<open>slices\<close> holds and
  yields it; the loop body inserts, composes, passes \<^verbatim>\<open>chunk[1:]\<close> on and sleeps; then the
  generator resumes with \<^verbatim>\<open>slices = slices[chunk_size:]\<close>.
\<close>

partial_function (option) compose_loop_heap ::
    "'s gateway \<Rightarrow> blob \<Rightarrow> int \<Rightarrow> nat \<Rightarrow> heap \<Rightarrow> 's
       \<Rightarrow> (error option \<times> heap \<times> 's \<times> event list) option" where
  "compose_loop_heap gw final_blob chunk_size slices h s =
     (if length (cells h slices) \<noteq> 0
      then (case new_list (slice_to (cells h slices) chunk_size) h of
              (chunk, h1) \<Rightarrow>
                (let h2 = list_insert0 chunk final_blob h1
                 in case compose_call gw final_blob (cells h2 chunk) s of
                      (Some e, s') \<Rightarrow>
                        Some (Some e, h2, s', [EvCompose final_blob (cells h2 chunk)])
                    | (None, s') \<Rightarrow>
                        (case new_list (slice_from (cells h2 chunk) 1) h2 of
                           (batch, h3) \<Rightarrow>
                             (case new_list (slice_from (cells h3 slices) chunk_size) h3 of
                                (slices', h4) \<Rightarrow>
                                  Option.bind
                                    (compose_loop_heap gw final_blob chunk_size slices' h4 s')
                                    (\<lambda>(r, h5, s'', tr).
                                       Some (r, h5, s'',
                                         [EvCompose final_blob (cells h2 chunk), EvComposeDone]
                                         @ delete_objects_concurrent (cells h3 batch)
                                         @ [EvSleep 1000] @ tr))))))
      else Some (None, h, s, []))"

declare compose_loop_heap.simps [code]

definition compose_heap ::
    "'s gateway \<Rightarrow> string \<Rightarrow> nat \<Rightarrow> heap \<Rightarrow> 's
       \<Rightarrow> ((error + blob) \<times> heap \<times> 's \<times> event list) option" where
  "compose_heap gw object_path slices h s =
     (let final_blob = Blob object_path
      in case upload_from_file gw final_blob s of
           (Some e, s1) \<Rightarrow> Some (Inl e, h, s1, [EvUpload final_blob])
         | (None, s1) \<Rightarrow>
             Option.bind (compose_loop_heap gw final_blob default_chunk_size slices h s1)
               (\<lambda>(r, h', s2, tr).
                  case r of
                    Some e \<Rightarrow> Some (Inl e, h', s2, EvUpload final_blob # tr)
                  | None \<Rightarrow> Some (Inr final_blob, h', s2, EvUpload final_blob # tr)))"

text \<open>A heap that holds one list, the caller's, at address 0.\<close>

definition caller_heap :: "blob list \<Rightarrow> heap" where
  "caller_heap xs = \<lparr>cells = (\<lambda>a. if a = 0 then xs else []), next_free = 1\<rparr>"

definition heap_of ::
    "('r \<times> heap \<times> 'x \<times> event list) option \<Rightarrow> heap option" where
  "heap_of run = (case run of None \<Rightarrow> None | Some (r, h, x, tr) \<Rightarrow> Some h)"

text \<open>Auxiliary: the chunks for a positive chunk size, as a total function.\<close>

function chunk_list :: "nat \<Rightarrow> 'a list \<Rightarrow> 'a list list" where
  "chunk_list k xs =
     (if k = 0 \<or> xs = [] then [] else take k xs # chunk_list k (drop k xs))"
  by pat_completeness auto
termination
  by (relation "measure (\<lambda>(k, xs). length xs)") auto

declare chunk_list.simps [simp del]

section \<open>Facts about slicing and the chunker\<close>

lemma slice_to_pos: "0 < k \<Longrightarrow> slice_to xs k = take (nat k) xs"
  by (simp add: slice_to_def Let_def min_def)

lemma slice_from_pos: "0 < k \<Longrightarrow> slice_from xs k = drop (nat k) xs"
  by (simp add: slice_from_def Let_def min_def)

lemma slice_from_Cons_1: "slice_from (x # xs) 1 = xs"
  by (simp add: slice_from_pos)

lemma slice_from_nonpos_nonempty:
  "k \<le> 0 \<Longrightarrow> xs \<noteq> [] \<Longrightarrow> slice_from xs k \<noteq> []"
  by (auto simp: slice_from_def Let_def max_def)

lemma chunks_pos:
  "0 < k \<Longrightarrow> generate_composition_chunks xs k = Some (chunk_list (nat k) xs)"
proof (induction "nat k" xs rule: chunk_list.induct)
  case (1 xs)
  show ?case
  proof (cases "xs = []")
    case True
    then show ?thesis
      by (simp add: generate_composition_chunks.simps chunk_list.simps)
  next
    case False
    with "1.prems" have "generate_composition_chunks (drop (nat k) xs) k
        = Some (chunk_list (nat k) (drop (nat k) xs))"
      using "1.hyps" by simp
    with False "1.prems" show ?thesis
      by (subst generate_composition_chunks.simps, subst chunk_list.simps)
         (simp add: slice_to_pos slice_from_pos)
  qed
qed

lemma chunks_nonpos_aux:
  "generate_composition_chunks xs k = Some cs \<Longrightarrow> k \<le> 0 \<longrightarrow> xs = []"
proof (rule generate_composition_chunks.raw_induct
         [where P = "\<lambda>xs k cs. k \<le> 0 \<longrightarrow> xs = []"])
  fix rec :: "'a list \<Rightarrow> int \<Rightarrow> 'a list list option" and ys :: "'a list" and j :: int
    and ds :: "'a list list"
  assume IH: "\<And>zs i es. rec zs i = Some es \<Longrightarrow> i \<le> 0 \<longrightarrow> zs = []"
    and body: "(if length ys \<noteq> 0
          then let chunk = slice_to ys j
               in Option.bind (rec (slice_from ys j) j) (\<lambda>rest. Some (chunk # rest))
          else Some []) = Some ds"
  show "j \<le> 0 \<longrightarrow> ys = []"
  proof (intro impI, rule ccontr)
    assume j: "j \<le> 0" and ne: "ys \<noteq> []"
    from body ne obtain rest where "rec (slice_from ys j) j = Some rest"
      by (auto simp: Let_def split: bind_splits)
    from IH[OF this] j slice_from_nonpos_nonempty[OF j ne]
    show False by simp
  qed
qed assumption

lemma chunks_nonpos:
  "k \<le> 0 \<Longrightarrow> xs \<noteq> [] \<Longrightarrow> generate_composition_chunks xs k = None"
  using chunks_nonpos_aux[of xs k] by (cases "generate_composition_chunks xs k") auto

lemma chunk_list_Nil [simp]: "chunk_list k [] = []"
  by (simp add: chunk_list.simps)

lemma chunk_list_step:
  "0 < k \<Longrightarrow> xs \<noteq> [] \<Longrightarrow> chunk_list k xs = take k xs # chunk_list k (drop k xs)"
  by (subst chunk_list.simps) simp

lemma concat_chunk_list: "0 < k \<Longrightarrow> concat (chunk_list k xs) = xs"
proof (induction k xs rule: chunk_list.induct)
  case (1 k xs)
  then show ?case by (cases "xs = []") (simp_all add: chunk_list_step)
qed




lemma chunk_list_bounds:
  "0 < k \<Longrightarrow> c \<in> set (chunk_list k xs) \<Longrightarrow> c \<noteq> [] \<and> length c \<le> k"
proof (induction k xs rule: chunk_list.induct)
  case (1 k xs)
  from "1.prems" have ne: "xs \<noteq> []" by auto
  with "1.prems" have "c = take k xs \<or> c \<in> set (chunk_list k (drop k xs))"
    by (simp add: chunk_list_step)
  then show ?case
  proof
    assume "c = take k xs"
    with ne "1.prems" show ?thesis by simp
  next
    assume "c \<in> set (chunk_list k (drop k xs))"
    with "1.IH" ne "1.prems" show ?thesis by simp
  qed
qed



lemma length_le_concat:
  "(\<And>c. c \<in> set cs \<Longrightarrow> c \<noteq> []) \<Longrightarrow> length cs \<le> length (concat cs)"
proof (induction cs)
  case Nil
  then show ?case by simp
next
  case (Cons c cs)
  then have "c \<noteq> []" and "length cs \<le> length (concat cs)" by simp_all
  then show ?case by (cases c) simp_all
qed

lemma length_chunk_list_le: "0 < k \<Longrightarrow> length (chunk_list k xs) \<le> length xs"
  using length_le_concat[of "chunk_list k xs"] chunk_list_bounds[of k _ xs]
  by (simp add: concat_chunk_list)

section \<open>The claims about the chunker\<close>

text \<open>
  C7: the chunker is a function of its two arguments alone. For a positive chunk size it
  finishes on every list, with at most one chunk per element. It never raises: the only
  inputs on which it gives no result are a chunk size \<open>\<le> 0\<close> with a non-empty list, where
  the loop never ends.
\<close>

theorem chunker_total_for_positive_size:
  "(0 < k \<longrightarrow>
      (\<exists>cs. generate_composition_chunks xs k = Some cs \<and> length cs \<le> length xs))
   \<and> (generate_composition_chunks xs k = None \<longleftrightarrow> k \<le> 0 \<and> xs \<noteq> [])"
proof (intro conjI impI)
  assume "0 < k"
  then show "\<exists>cs. generate_composition_chunks xs k = Some cs \<and> length cs \<le> length xs"
    by (simp add: chunks_pos length_chunk_list_le)
next
  show "generate_composition_chunks xs k = None \<longleftrightarrow> k \<le> 0 \<and> xs \<noteq> []"
  proof (cases "0 < k")
    case True
    then show ?thesis by (simp add: chunks_pos)
  next
    case False
    then have k: "k \<le> 0" by simp
    show ?thesis
    proof (cases "xs = []")
      case True
      then show ?thesis by (simp add: generate_composition_chunks.simps)
    next
      case False
      with k show ?thesis by (simp add: chunks_nonpos)
    qed
  qed
qed

theorem chunker_total_for_positive_size_witness:
  "generate_composition_chunks [Blob ''a'', Blob ''b'', Blob ''c''] 2
     = Some [[Blob ''a'', Blob ''b''], [Blob ''c'']]
   \<and> generate_composition_chunks [Blob ''a''] 0 = None
   \<and> generate_composition_chunks [Blob ''a''] (- 1) = None
   \<and> generate_composition_chunks ([] :: blob list) 0 = Some []"
proof -
  have a: "generate_composition_chunks [Blob ''a'', Blob ''b'', Blob ''c''] 2
     = Some [[Blob ''a'', Blob ''b''], [Blob ''c'']]"
    by (simp add: generate_composition_chunks.simps slice_to_def slice_from_def)
  have b: "generate_composition_chunks ([] :: blob list) 0 = Some []"
    by (simp add: generate_composition_chunks.simps)
  from chunker_total_for_positive_size[of 0 "[Blob ''a'']"]
       chunker_total_for_positive_size[of "- 1" "[Blob ''a'']"] a b
  show ?thesis by simp
qed

section \<open>Facts about traces\<close>

lemma compose_calls_append [simp]:
  "compose_calls (xs @ ys) = compose_calls xs @ compose_calls ys"
  by (induction xs rule: compose_calls.induct) simp_all

lemma batches_append [simp]: "batches (xs @ ys) = batches xs @ batches ys"
  by (induction xs rule: batches.induct) simp_all

lemma submitted_append [simp]: "submitted (xs @ ys) = submitted xs @ submitted ys"
  by (induction xs rule: submitted.induct) simp_all

lemma compose_calls_submit_all [simp]: "compose_calls (submit_all bs) = []"
  by (induction bs) simp_all

lemma batches_submit_all [simp]: "batches (submit_all bs) = []"
  by (induction bs) simp_all

lemma submitted_submit_all [simp]: "submitted (submit_all bs) = bs"
  by (induction bs) simp_all

lemma compose_calls_iteration [simp]:
  "compose_calls (iteration_events fb c) = [(fb, fb # c)]"
  by (simp add: iteration_events_def delete_objects_concurrent_def)

lemma batches_iteration [simp]: "batches (iteration_events fb c) = [c]"
  by (simp add: iteration_events_def delete_objects_concurrent_def)

lemma submitted_iteration [simp]: "submitted (iteration_events fb c) = c"
  by (simp add: iteration_events_def delete_objects_concurrent_def)

lemma compose_calls_iterations [simp]:
  "compose_calls (concat (map (iteration_events fb) cs)) = map (\<lambda>c. (fb, fb # c)) cs"
  by (induction cs) simp_all

lemma batches_iterations [simp]: "batches (concat (map (iteration_events fb) cs)) = cs"
  by (induction cs) simp_all

lemma submitted_iterations [simp]:
  "submitted (concat (map (iteration_events fb) cs)) = concat cs"
  by (induction cs) simp_all

section \<open>The shape of a run of the loop\<close>

lemma compose_loop_shape:
  "compose_loop gw fb cs s = (r, s', tr) \<Longrightarrow>
   \<exists>m. m \<le> length cs
     \<and> tr = concat (map (iteration_events fb) (take m cs))
            @ (case r of None \<Rightarrow> [] | Some e \<Rightarrow> [EvCompose fb (fb # cs ! m)])
     \<and> (case r of None \<Rightarrow> m = length cs | Some e \<Rightarrow> m < length cs)"
proof (induction cs arbitrary: s r s' tr)
  case Nil
  then show ?case by auto
next
  case (Cons c cs)
  obtain o1 s1 where call: "compose_call gw fb (fb # c) s = (o1, s1)"
    by (cases "compose_call gw fb (fb # c) s")
  show ?case
  proof (cases o1)
    case (Some e)
    with call Cons.prems have "r = Some e" and "tr = [EvCompose fb (fb # c)]"
      by simp_all
    then show ?thesis by (intro exI[of _ 0]) simp
  next
    case None
    obtain r2 s2 tr2 where rest: "compose_loop gw fb cs s1 = (r2, s2, tr2)"
      by (cases "compose_loop gw fb cs s1")
    from call None rest Cons.prems
    have r: "r = r2" and tr: "tr = iteration_events fb c @ tr2"
      by (simp_all add: iteration_events_def slice_from_Cons_1)
    from Cons.IH[OF rest] obtain m where m: "m \<le> length cs"
      "tr2 = concat (map (iteration_events fb) (take m cs))
            @ (case r2 of None \<Rightarrow> [] | Some e \<Rightarrow> [EvCompose fb (fb # cs ! m)])"
      "case r2 of None \<Rightarrow> m = length cs | Some e \<Rightarrow> m < length cs"
      by blast
    show ?thesis
      using m r tr by (intro exI[of _ "Suc m"]) (simp split: option.splits)
  qed
qed

section \<open>Facts about compose\<close>

lemma default_chunks:
  "generate_composition_chunks slices default_chunk_size = Some (chunk_list 31 slices)"
  by (simp add: default_chunk_size_def chunks_pos)

lemma compose_unfold:
  "compose gw p slices s =
     (case upload_from_file gw (Blob p) s of
        (Some e, s1) \<Rightarrow> Some (Inl e, s1, [EvUpload (Blob p)])
      | (None, s1) \<Rightarrow>
          (case compose_loop gw (Blob p) (chunk_list 31 slices) s1 of
             (Some e, s2, tr) \<Rightarrow> Some (Inl e, s2, EvUpload (Blob p) # tr)
           | (None, s2, tr) \<Rightarrow> Some (Inr (Blob p), s2, EvUpload (Blob p) # tr)))"
  by (simp add: compose_def default_chunks Let_def split: prod.splits option.splits)

lemma compose_cases:
  assumes "compose gw p slices s = Some (res, s', tr)"
  obtains (upload_failed) e where "upload_from_file gw (Blob p) s = (Some e, s')"
      and "res = Inl e" and "tr = [EvUpload (Blob p)]"
  | (looped) s1 r tr1 where "upload_from_file gw (Blob p) s = (None, s1)"
      and "compose_loop gw (Blob p) (chunk_list 31 slices) s1 = (r, s', tr1)"
      and "tr = EvUpload (Blob p) # tr1"
      and "res = (case r of None \<Rightarrow> Inr (Blob p) | Some e \<Rightarrow> Inl e)"
proof -
  obtain o1 s1 where up: "upload_from_file gw (Blob p) s = (o1, s1)"
    by (cases "upload_from_file gw (Blob p) s")
  show thesis
  proof (cases o1)
    case (Some e)
    with up assms show ?thesis
      by (intro upload_failed[of e]) (simp_all add: compose_unfold)
  next
    case None
    obtain r s2 tr1 where lp: "compose_loop gw (Blob p) (chunk_list 31 slices) s1 = (r, s2, tr1)"
      by (cases "compose_loop gw (Blob p) (chunk_list 31 slices) s1")
    with up None assms show ?thesis
      by (intro looped[of s1 r tr1]) (auto simp: compose_unfold split: option.splits)
  qed
qed

lemma compose_total: "\<exists>res s' tr. compose gw p slices s = Some (res, s', tr)"
  by (simp add: compose_unfold split: prod.splits option.splits)




section \<open>The compose calls of a run\<close>










section \<open>Where a dispatch stands in a trace\<close>

lemma split_append_Cons:
  assumes "xs @ ys = pre @ e # post"
  shows "(\<exists>q. xs = pre @ e # q \<and> post = q @ ys) \<or> (\<exists>p'. pre = xs @ p' \<and> ys = p' @ e # post)"
  using assms by (auto simp: append_eq_append_conv2 append_eq_Cons_conv)

lemma in_submit_all:
  "e \<in> set (submit_all c) \<Longrightarrow> (\<exists>b\<in>set c. e = EvSubmit b) \<or> e = EvSleep 5"
  by (induction c) auto

lemma iteration_dispatch:
  assumes "iteration_events fb c = pre @ EvDispatch bs # q"
  shows "pre = [EvCompose fb (fb # c), EvComposeDone] \<and> bs = c"
proof -
  have no: "EvDispatch bs \<notin> set (submit_all c @ [EvSleep 1000])"
    by (auto dest: in_submit_all)
  from assms have eq: "EvCompose fb (fb # c) # EvComposeDone # EvDispatch c
      # (submit_all c @ [EvSleep 1000]) = pre @ EvDispatch bs # q"
    by (simp add: iteration_events_def delete_objects_concurrent_def)
  show ?thesis
  proof (cases pre)
    case Nil
    with eq show ?thesis by simp
  next
    case (Cons x1 p1)
    note c1 = this
    show ?thesis
    proof (cases p1)
      case Nil
      with c1 eq show ?thesis by simp
    next
      case (Cons x2 p2)
      note c2 = this
      show ?thesis
      proof (cases p2)
        case Nil
        with c1 c2 eq show ?thesis by auto
      next
        case (Cons x3 p3)
        with c1 c2 eq have "submit_all c @ [EvSleep 1000] = p3 @ EvDispatch bs # q" by simp
        then have "EvDispatch bs \<in> set (submit_all c @ [EvSleep 1000])"
          by (metis in_set_conv_decomp)
        with no show ?thesis by simp
      qed
    qed
  qed
qed

lemma iteration_submit:
  assumes "iteration_events fb c = pre @ EvSubmit b # q"
  shows "\<exists>mid. pre = EvCompose fb (fb # c) # EvComposeDone # EvDispatch c # mid
           \<and> b \<in> set c \<and> compose_calls mid = [] \<and> batches mid = []"
proof -
  from assms have eq: "EvCompose fb (fb # c) # EvComposeDone # EvDispatch c
      # (submit_all c @ [EvSleep 1000]) = pre @ EvSubmit b # q"
    by (simp add: iteration_events_def delete_objects_concurrent_def)
  show ?thesis
  proof (cases pre)
    case Nil
    with eq show ?thesis by simp
  next
    case (Cons x1 p1)
    note c1 = this
    show ?thesis
    proof (cases p1)
      case Nil
      with c1 eq show ?thesis by simp
    next
      case (Cons x2 p2)
      note c2 = this
      show ?thesis
      proof (cases p2)
        case Nil
        with c1 c2 eq show ?thesis by simp
      next
        case (Cons x3 p3)
        with c1 c2 eq have pre: "pre = EvCompose fb (fb # c) # EvComposeDone # EvDispatch c # p3"
          and tl: "submit_all c @ [EvSleep 1000] = p3 @ EvSubmit b # q" by simp_all
        from tl have "EvSubmit b \<in> set (submit_all c @ [EvSleep 1000])"
          by (metis in_set_conv_decomp)
        then have b: "b \<in> set c" by (auto dest: in_submit_all)
        from tl have "compose_calls (submit_all c @ [EvSleep 1000])
            = compose_calls (p3 @ EvSubmit b # q)" by simp
        then have cc: "compose_calls p3 = []" by simp
        from tl have "batches (submit_all c @ [EvSleep 1000])
            = batches (p3 @ EvSubmit b # q)" by simp
        then have bb: "batches p3 = []" by simp
        from pre b cc bb show ?thesis by blast
      qed
    qed
  qed
qed

lemma iterations_dispatch:
  assumes "concat (map (iteration_events fb) cs) @ suf = pre @ EvDispatch bs # post"
    and "batches suf = []"
  shows "\<exists>pre'. pre = pre' @ [EvCompose fb (fb # bs), EvComposeDone]"
  using assms
proof (induction cs arbitrary: pre)
  case Nil
  then have "batches suf = batches (pre @ EvDispatch bs # post)" by simp
  with Nil.prems(2) show ?case by simp
next
  case (Cons c cs)
  from Cons.prems(1) have "iteration_events fb c @ (concat (map (iteration_events fb) cs) @ suf)
      = pre @ EvDispatch bs # post" by simp
  from split_append_Cons[OF this] show ?case
  proof (elim disjE exE conjE)
    fix q assume "iteration_events fb c = pre @ EvDispatch bs # q"
    from iteration_dispatch[OF this] show ?thesis by simp
  next
    fix p' assume pre: "pre = iteration_events fb c @ p'"
      and "concat (map (iteration_events fb) cs) @ suf = p' @ EvDispatch bs # post"
    from Cons.IH[OF this(2) Cons.prems(2)] obtain pre'
      where "p' = pre' @ [EvCompose fb (fb # bs), EvComposeDone]" by blast
    with pre show ?thesis by (intro exI[of _ "iteration_events fb c @ pre'"]) simp
  qed
qed

lemma iterations_submit:
  assumes "concat (map (iteration_events fb) cs) @ suf = pre @ EvSubmit b # post"
    and "submitted suf = []"
  shows "\<exists>pre' bs mid. pre = pre' @ EvCompose fb (fb # bs) # EvComposeDone # EvDispatch bs # mid
           \<and> b \<in> set bs \<and> compose_calls mid = [] \<and> batches mid = []"
  using assms
proof (induction cs arbitrary: pre)
  case Nil
  then have "submitted suf = submitted (pre @ EvSubmit b # post)" by simp
  with Nil.prems(2) show ?case by simp
next
  case (Cons c cs)
  from Cons.prems(1) have "iteration_events fb c @ (concat (map (iteration_events fb) cs) @ suf)
      = pre @ EvSubmit b # post" by simp
  from split_append_Cons[OF this] show ?case
  proof (elim disjE exE conjE)
    fix q assume "iteration_events fb c = pre @ EvSubmit b # q"
    from iteration_submit[OF this] obtain mid where
      "pre = [] @ EvCompose fb (fb # c) # EvComposeDone # EvDispatch c # mid"
      "b \<in> set c" "compose_calls mid = []" "batches mid = []" by auto
    then show ?thesis by blast
  next
    fix p' assume pre: "pre = iteration_events fb c @ p'"
      and "concat (map (iteration_events fb) cs) @ suf = p' @ EvSubmit b # post"
    from Cons.IH[OF this(2) Cons.prems(2)] obtain pre' bs mid
      where "p' = pre' @ EvCompose fb (fb # bs) # EvComposeDone # EvDispatch bs # mid"
        and r: "b \<in> set bs" "compose_calls mid = []" "batches mid = []" by blast
    with pre have "pre = (iteration_events fb c @ pre')
        @ EvCompose fb (fb # bs) # EvComposeDone # EvDispatch bs # mid" by simp
    with r show ?thesis by blast
  qed
qed

lemma compose_trace_shape:
  assumes "compose gw p slices s = Some (res, s', tr)"
  shows "\<exists>n suf. n \<le> length (chunk_list 31 slices)
     \<and> tr = EvUpload (Blob p)
            # concat (map (iteration_events (Blob p)) (take n (chunk_list 31 slices))) @ suf
     \<and> (suf = [] \<or> (\<exists>ins. suf = [EvCompose (Blob p) ins]))
     \<and> ((\<exists>b. res = Inr b) \<longrightarrow> n = length (chunk_list 31 slices) \<and> suf = [])"
  using assms
proof (cases rule: compose_cases)
  case (upload_failed e)
  then show ?thesis by (intro exI[of _ 0] exI[of _ "[]"]) simp
next
  case (looped s1 r tr1)
  from compose_loop_shape[OF looped(2)] obtain m where m: "m \<le> length (chunk_list 31 slices)"
      "tr1 = concat (map (iteration_events (Blob p)) (take m (chunk_list 31 slices)))
            @ (case r of None \<Rightarrow> []
               | Some e \<Rightarrow> [EvCompose (Blob p) (Blob p # chunk_list 31 slices ! m)])"
      "case r of None \<Rightarrow> m = length (chunk_list 31 slices)
       | Some e \<Rightarrow> m < length (chunk_list 31 slices)"
    by blast
  show ?thesis
  proof (cases r)
    case None
    with m looped show ?thesis by (intro exI[of _ m] exI[of _ "[]"]) simp
  next
    case (Some e)
    with m looped show ?thesis
      by (intro exI[of _ m]
            exI[of _ "[EvCompose (Blob p) (Blob p # chunk_list 31 slices ! m)]"]) simp
  qed
qed

lemma compose_batches:
  assumes "compose gw p slices s = Some (res, s', tr)"
  shows "\<exists>n\<le>length (chunk_list 31 slices).
           batches tr = take n (chunk_list 31 slices)
         \<and> submitted tr = concat (take n (chunk_list 31 slices))
         \<and> map snd (take n (compose_calls tr)) = map ((#) (Blob p)) (batches tr)
         \<and> ((\<exists>b. res = Inr b) \<longrightarrow> n = length (chunk_list 31 slices))"
proof -
  from compose_trace_shape[OF assms] obtain n suf where
    n: "n \<le> length (chunk_list 31 slices)"
    and tr: "tr = EvUpload (Blob p)
            # concat (map (iteration_events (Blob p)) (take n (chunk_list 31 slices))) @ suf"
    and suf: "suf = [] \<or> (\<exists>ins. suf = [EvCompose (Blob p) ins])"
    and fin: "(\<exists>b. res = Inr b) \<longrightarrow> n = length (chunk_list 31 slices) \<and> suf = []"
    by blast
  from suf have b: "batches suf = []" and sb: "submitted suf = []" by auto
  from tr b have 1: "batches tr = take n (chunk_list 31 slices)" by simp
  from tr sb have 2: "submitted tr = concat (take n (chunk_list 31 slices))" by simp
  from tr n have 3: "map snd (take n (compose_calls tr)) = map ((#) (Blob p)) (batches tr)"
    using 1 by (simp add: comp_def)
  from n 1 2 3 fin show ?thesis by blast
qed

lemma compose_dispatch_position:
  assumes "compose gw p slices s = Some (res, s', tr)" and "tr = pre @ EvDispatch bs # post"
  shows "\<exists>pre'. pre = pre' @ [EvCompose (Blob p) (Blob p # bs), EvComposeDone]"
proof -
  from compose_trace_shape[OF assms(1)] obtain n suf where
    tr: "tr = EvUpload (Blob p)
            # concat (map (iteration_events (Blob p)) (take n (chunk_list 31 slices))) @ suf"
    and suf: "suf = [] \<or> (\<exists>ins. suf = [EvCompose (Blob p) ins])"
    by blast
  from suf have b: "batches suf = []" by auto
  from tr assms(2) obtain pre0 where pre: "pre = EvUpload (Blob p) # pre0"
    and "concat (map (iteration_events (Blob p)) (take n (chunk_list 31 slices))) @ suf
           = pre0 @ EvDispatch bs # post"
    by (cases pre) auto
  from iterations_dispatch[OF this(2) b] pre show ?thesis
    by (metis append_Cons)
qed

lemma compose_submit_position:
  assumes "compose gw p slices s = Some (res, s', tr)" and "tr = pre @ EvSubmit b # post"
  shows "\<exists>pre' bs mid.
           pre = pre' @ EvCompose (Blob p) (Blob p # bs) # EvComposeDone # EvDispatch bs # mid
           \<and> b \<in> set bs \<and> compose_calls mid = [] \<and> batches mid = []"
proof -
  from compose_trace_shape[OF assms(1)] obtain n suf where
    tr: "tr = EvUpload (Blob p)
            # concat (map (iteration_events (Blob p)) (take n (chunk_list 31 slices))) @ suf"
    and suf: "suf = [] \<or> (\<exists>ins. suf = [EvCompose (Blob p) ins])"
    by blast
  from suf have b: "submitted suf = []" by auto
  from tr assms(2) obtain pre0 where pre: "pre = EvUpload (Blob p) # pre0"
    and "concat (map (iteration_events (Blob p)) (take n (chunk_list 31 slices))) @ suf
           = pre0 @ EvSubmit b # post"
    by (cases pre) auto
  from iterations_submit[OF this(2) b] obtain pre' bs mid where
    "pre0 = pre' @ EvCompose (Blob p) (Blob p # bs) # EvComposeDone # EvDispatch bs # mid"
    and r: "b \<in> set bs" "compose_calls mid = []" "batches mid = []" by blast
  with pre have "pre = (EvUpload (Blob p) # pre')
       @ EvCompose (Blob p) (Blob p # bs) # EvComposeDone # EvDispatch bs # mid" by simp
  with r show ?thesis by blast
qed


section \<open>The claims about cleanup\<close>

text \<open>
  C5: in every run of compose the batches handed to \<^verbatim>\<open>delete_objects_concurrent\<close> are the
  first chunks of the slice list, one batch per chunk and in order, and the blobs submitted
  for deletion are the blobs of these batches; in a run that returns they are all the chunks,
  so the batches split the slice list and every slice stands in exactly one batch. A batch
  is handed over directly after the compose call on the accumulator and exactly that batch
  has returned, and a blob is submitted only inside the hand-over of its batch, before any
  further compose call.
\<close>

theorem cleanup_follows_successful_compose:
  assumes "compose gw p slices s = Some (res, s', tr)"
  shows "(\<exists>cs n. generate_composition_chunks slices default_chunk_size = Some cs
            \<and> n \<le> length cs \<and> batches tr = take n cs
            \<and> ((\<exists>b. res = Inr b) \<longrightarrow> n = length cs))
     \<and> submitted tr = concat (batches tr)
     \<and> ((\<exists>b. res = Inr b) \<longrightarrow> concat (batches tr) = slices)
     \<and> (\<forall>pre bs post. tr = pre @ EvDispatch bs # post \<longrightarrow>
           (\<exists>pre'. pre = pre' @ [EvCompose (Blob p) (Blob p # bs), EvComposeDone]))
     \<and> (\<forall>pre b post. tr = pre @ EvSubmit b # post \<longrightarrow>
           (\<exists>pre' bs mid.
              pre = pre' @ EvCompose (Blob p) (Blob p # bs) # EvComposeDone # EvDispatch bs # mid
              \<and> b \<in> set bs \<and> compose_calls mid = [] \<and> batches mid = []))"
proof -
  from compose_batches[OF assms] obtain n where n: "n \<le> length (chunk_list 31 slices)"
    and b: "batches tr = take n (chunk_list 31 slices)"
    and sb: "submitted tr = concat (take n (chunk_list 31 slices))"
    and fin: "(\<exists>b. res = Inr b) \<longrightarrow> n = length (chunk_list 31 slices)"
    by blast
  have 1: "\<exists>cs n. generate_composition_chunks slices default_chunk_size = Some cs
            \<and> n \<le> length cs \<and> batches tr = take n cs
            \<and> ((\<exists>b. res = Inr b) \<longrightarrow> n = length cs)"
    using default_chunks[of slices] n b fin by blast
  have 2: "submitted tr = concat (batches tr)"
    using b sb by simp
  have 3: "(\<exists>b. res = Inr b) \<longrightarrow> concat (batches tr) = slices"
    using b fin by (auto simp: concat_chunk_list)
  have 4: "\<forall>pre bs post. tr = pre @ EvDispatch bs # post \<longrightarrow>
           (\<exists>pre'. pre = pre' @ [EvCompose (Blob p) (Blob p # bs), EvComposeDone])"
    using compose_dispatch_position[OF assms] by blast
  have 5: "\<forall>pre b post. tr = pre @ EvSubmit b # post \<longrightarrow>
           (\<exists>pre' bs mid.
              pre = pre' @ EvCompose (Blob p) (Blob p # bs) # EvComposeDone # EvDispatch bs # mid
              \<and> b \<in> set bs \<and> compose_calls mid = [] \<and> batches mid = [])"
    using compose_submit_position[OF assms] by blast
  from 1 2 3 4 5 show ?thesis by blast
qed

theorem cleanup_follows_successful_compose_witness:
  "outcome_of (compose (spec_gateway no_failure 31) ''out''
       [Blob ''a'', Blob ''b''] empty_service) = Some (Inr (Blob ''out''))
   \<and> trace_of (compose (spec_gateway no_failure 31) ''out''
       [Blob ''a'', Blob ''b''] empty_service)
     = [EvUpload (Blob ''out''),
        EvCompose (Blob ''out'') [Blob ''out'', Blob ''a'', Blob ''b''], EvComposeDone,
        EvDispatch [Blob ''a'', Blob ''b''],
        EvSubmit (Blob ''a''), EvSleep 5, EvSubmit (Blob ''b''), EvSleep 5, EvSleep 1000]
   \<and> concat (batches (trace_of (compose (spec_gateway no_failure 31) ''out''
       [Blob ''a'', Blob ''b''] empty_service))) = [Blob ''a'', Blob ''b'']
   \<and> batches (trace_of (compose (spec_gateway (fails_at 0) 31) ''out''
       [Blob ''a'', Blob ''b''] empty_service)) = []"
proof -
  obtain res s' tr where run: "compose (spec_gateway no_failure 31) ''out''
       [Blob ''a'', Blob ''b''] empty_service = Some (res, s', tr)"
    using compose_total[of "spec_gateway no_failure 31" "''out''"
            "[Blob ''a'', Blob ''b'']" empty_service]
    by blast
  have ev: "outcome_of (compose (spec_gateway no_failure 31) ''out''
       [Blob ''a'', Blob ''b''] empty_service) = Some (Inr (Blob ''out''))
   \<and> trace_of (compose (spec_gateway no_failure 31) ''out''
       [Blob ''a'', Blob ''b''] empty_service)
     = [EvUpload (Blob ''out''),
        EvCompose (Blob ''out'') [Blob ''out'', Blob ''a'', Blob ''b''], EvComposeDone,
        EvDispatch [Blob ''a'', Blob ''b''],
        EvSubmit (Blob ''a''), EvSleep 5, EvSubmit (Blob ''b''), EvSleep 5, EvSleep 1000]"
    by (simp add: compose_unfold chunk_list.simps spec_gateway_def empty_service_def
          no_failure_def slice_from_Cons_1 delete_objects_concurrent_def
          outcome_of_def trace_of_def)
  with run have "\<exists>b. res = Inr b" by (simp add: outcome_of_def)
  with cleanup_follows_successful_compose[OF run] have "concat (batches tr) = [Blob ''a'', Blob ''b'']"
    by blast
  with run have c: "concat (batches (trace_of (compose (spec_gateway no_failure 31) ''out''
       [Blob ''a'', Blob ''b''] empty_service))) = [Blob ''a'', Blob ''b'']"
    by (simp add: trace_of_def)
  have f: "batches (trace_of (compose (spec_gateway (fails_at 0) 31) ''out''
       [Blob ''a'', Blob ''b''] empty_service)) = []"
    by (simp add: compose_unfold chunk_list.simps spec_gateway_def empty_service_def
          fails_at_def trace_of_def)
  from ev c f show ?thesis by blast
qed

text \<open>
  C6: every batch handed to \<^verbatim>\<open>delete_objects_concurrent\<close> is one chunk of the slice list as
  the caller gave it, namely the inputs of the compose call before it without the
  accumulator at input 0, and only blobs of the slice list are submitted for deletion. So
  the blob at the destination path is never submitted, provided it is not itself one of the
  slices.
\<close>

theorem cleanup_batches_are_original_slices:
  assumes "compose gw p slices s = Some (res, s', tr)"
  shows "(\<exists>cs n. generate_composition_chunks slices default_chunk_size = Some cs
            \<and> batches tr = take n cs)
     \<and> map snd (take (length (batches tr)) (compose_calls tr))
         = map ((#) (Blob p)) (batches tr)
     \<and> set (submitted tr) \<subseteq> set slices
     \<and> (Blob p \<notin> set slices \<longrightarrow>
          Blob p \<notin> set (submitted tr) \<and> (\<forall>bs\<in>set (batches tr). Blob p \<notin> set bs))"
proof -
  from compose_batches[OF assms] obtain n where n: "n \<le> length (chunk_list 31 slices)"
    and b: "batches tr = take n (chunk_list 31 slices)"
    and sb: "submitted tr = concat (take n (chunk_list 31 slices))"
    and calls: "map snd (take n (compose_calls tr)) = map ((#) (Blob p)) (batches tr)"
    by blast
  have 1: "\<exists>cs n. generate_composition_chunks slices default_chunk_size = Some cs
            \<and> batches tr = take n cs"
    using default_chunks[of slices] b by blast
  from n b have "length (batches tr) = n" by simp
  with calls have 2: "map snd (take (length (batches tr)) (compose_calls tr))
         = map ((#) (Blob p)) (batches tr)" by simp
  have sub: "set (concat (take n (chunk_list 31 slices))) \<subseteq> set slices"
  proof -
    have "set (concat (take n (chunk_list 31 slices)))
            \<subseteq> set (concat (chunk_list 31 slices))"
      by (auto dest: in_set_takeD)
    then show ?thesis by (simp add: concat_chunk_list)
  qed
  with sb have 3: "set (submitted tr) \<subseteq> set slices" by simp
  have 4: "Blob p \<notin> set slices \<longrightarrow>
          Blob p \<notin> set (submitted tr) \<and> (\<forall>bs\<in>set (batches tr). Blob p \<notin> set bs)"
  proof (intro impI conjI ballI)
    assume np: "Blob p \<notin> set slices"
    with 3 show "Blob p \<notin> set (submitted tr)" by blast
    fix bs assume "bs \<in> set (batches tr)"
    with b sb have "set bs \<subseteq> set (submitted tr)" by auto
    with 3 np show "Blob p \<notin> set bs" by blast
  qed
  from 1 2 3 4 show ?thesis by blast
qed

theorem cleanup_batches_are_original_slices_witness:
  "Blob ''out'' \<notin> set [Blob ''a'', Blob ''b'']
   \<and> Blob ''out'' \<notin> set (submitted (trace_of (compose (spec_gateway no_failure 31) ''out''
       [Blob ''a'', Blob ''b''] empty_service)))
   \<and> batches (trace_of (compose (spec_gateway no_failure 31) ''out''
       [Blob ''a'', Blob ''b''] empty_service)) = [[Blob ''a'', Blob ''b'']]"
proof -
  obtain res s' tr where run: "compose (spec_gateway no_failure 31) ''out''
       [Blob ''a'', Blob ''b''] empty_service = Some (res, s', tr)"
    using compose_total[of "spec_gateway no_failure 31" "''out''"
            "[Blob ''a'', Blob ''b'']" empty_service]
    by blast
  have np: "Blob ''out'' \<notin> set [Blob ''a'', Blob ''b'']" by simp
  with cleanup_batches_are_original_slices[OF run] have "Blob ''out'' \<notin> set (submitted tr)"
    by blast
  with run have 1: "Blob ''out'' \<notin> set (submitted (trace_of (compose
       (spec_gateway no_failure 31) ''out'' [Blob ''a'', Blob ''b''] empty_service)))"
    by (simp add: trace_of_def)
  have 2: "batches (trace_of (compose (spec_gateway no_failure 31) ''out''
       [Blob ''a'', Blob ''b''] empty_service)) = [[Blob ''a'', Blob ''b'']]"
    by (simp add: compose_unfold chunk_list.simps spec_gateway_def empty_service_def
          no_failure_def slice_from_Cons_1 delete_objects_concurrent_def trace_of_def)
  from np 1 2 show ?thesis by blast
qed

theorem accumulator_submitted_for_deletion:
  "outcome_of (compose (spec_gateway no_failure 31) ''out'' [Blob ''out''] empty_service)
     = Some (Inr (Blob ''out''))
   \<and> trace_of (compose (spec_gateway no_failure 31) ''out'' [Blob ''out''] empty_service)
     = [EvUpload (Blob ''out''),
        EvCompose (Blob ''out'') [Blob ''out'', Blob ''out''], EvComposeDone,
        EvDispatch [Blob ''out''], EvSubmit (Blob ''out''), EvSleep 5, EvSleep 1000]
   \<and> Blob ''out'' \<in> set (submitted (trace_of
        (compose (spec_gateway no_failure 31) ''out'' [Blob ''out''] empty_service)))"
  by (simp add: compose_unfold chunk_list.simps spec_gateway_def empty_service_def
        no_failure_def slice_from_Cons_1 delete_objects_concurrent_def
        outcome_of_def trace_of_def)

section \<open>The clock of a trace\<close>

lemma slept_append [simp]: "slept (xs @ ys) = slept xs + slept ys"
  by (induction xs rule: slept.induct) simp_all

lemma call_times_append:
  "call_times t (xs @ ys) = call_times t xs @ call_times (t + slept xs) ys"
  by (induction t xs rule: call_times.induct) (simp_all add: add.assoc)

lemma call_times_submit_all [simp]: "call_times t (submit_all c) = []"
  by (induction c arbitrary: t) simp_all

lemma slept_submit_all [simp]: "slept (submit_all c) = 5 * length c"
  by (induction c) simp_all

lemma call_times_iteration [simp]: "call_times t (iteration_events fb c) = [t]"
  by (simp add: iteration_events_def delete_objects_concurrent_def call_times_append)

lemma slept_iteration [simp]: "slept (iteration_events fb c) = 1000 + 5 * length c"
  by (simp add: iteration_events_def delete_objects_concurrent_def)

lemma length_call_times: "length (call_times t tr) = length (compose_calls tr)"
  by (induction t tr rule: call_times.induct) simp_all

lemma call_times_iterations:
  assumes "suf = [] \<or> (\<exists>ins. suf = [EvCompose fb ins])"
  shows "successively (\<lambda>a b. a + 1000 \<le> b)
           (call_times t (concat (map (iteration_events fb) cs) @ suf))
         \<and> (\<forall>x\<in>set (call_times t (concat (map (iteration_events fb) cs) @ suf)). t \<le> x)"
proof (induction cs arbitrary: t)
  case Nil
  from assms show ?case by auto
next
  case (Cons c cs)
  let ?rest = "call_times (t + (1000 + 5 * length c))
                 (concat (map (iteration_events fb) cs) @ suf)"
  have eq: "call_times t (concat (map (iteration_events fb) (c # cs)) @ suf) = t # ?rest"
    by (simp add: call_times_append)
  from Cons.IH[of "t + (1000 + 5 * length c)"]
  have s: "successively (\<lambda>a b. a + 1000 \<le> b) ?rest"
    and lb: "\<forall>x\<in>set ?rest. t + (1000 + 5 * length c) \<le> x" by simp_all
  have "successively (\<lambda>a b. a + 1000 \<le> b) (t # ?rest)"
  proof (cases ?rest)
    case Nil
    then show ?thesis by simp
  next
    case (Cons y ys)
    with lb have "t + 1000 \<le> y" by simp
    with s Cons show ?thesis by simp
  qed
  moreover from lb have "\<forall>x\<in>set (t # ?rest). t \<le> x" by auto
  ultimately show ?case unfolding eq by blast
qed

lemma loop_call_times:
  assumes "compose_loop gw fb cs s = (r, s', tr)" and "Suc i < length (call_times t tr)"
  shows "call_times t tr ! i + 1000 \<le> call_times t tr ! Suc i"
proof -
  from compose_loop_shape[OF assms(1)] obtain m
    where m: "tr = concat (map (iteration_events fb) (take m cs))
            @ (case r of None \<Rightarrow> [] | Some e \<Rightarrow> [EvCompose fb (fb # cs ! m)])"
    by blast
  define suf where "suf = (case r of None \<Rightarrow> [] | Some e \<Rightarrow> [EvCompose fb (fb # cs ! m)])"
  from m have tr: "tr = concat (map (iteration_events fb) (take m cs)) @ suf"
    by (simp add: suf_def)
  have suf: "suf = [] \<or> (\<exists>ins. suf = [EvCompose fb ins])"
    by (cases r) (simp_all add: suf_def)
  from call_times_iterations[OF suf, of t "take m cs"] tr
  have "successively (\<lambda>a b. a + 1000 \<le> b) (call_times t tr)" by simp
  with assms(2) show ?thesis by (simp add: successively_conv_nth)
qed

lemma compose_call_times:
  assumes "compose gw p slices s = Some (res, s', tr)" and "Suc i < length (call_times t tr)"
  shows "call_times t tr ! i + 1000 \<le> call_times t tr ! Suc i"
  using assms(1)
proof (cases rule: compose_cases)
  case (upload_failed e)
  with assms(2) show ?thesis by simp
next
  case (looped s1 r tr1)
  with assms(2) loop_call_times[OF looped(2), of i t] show ?thesis by simp
qed

section \<open>The two versions of compose\<close>

lemma without_cleanup_append [simp]:
  "without_cleanup (xs @ ys) = without_cleanup xs @ without_cleanup ys"
  by (simp add: without_cleanup_def)

lemma without_cleanup_Nil [simp]: "without_cleanup [] = []"
  by (simp add: without_cleanup_def)

lemma without_cleanup_Cons [simp]:
  "without_cleanup (e # tr) = (if is_cleanup e then without_cleanup tr else e # without_cleanup tr)"
  by (simp add: without_cleanup_def)

lemma without_cleanup_submit_all [simp]: "without_cleanup (submit_all c) = []"
  by (induction c) simp_all

lemma compose_calls_without_cleanup [simp]:
  "compose_calls (without_cleanup tr) = compose_calls tr"
  by (induction tr rule: compose_calls.induct) simp_all

lemma batches_without_cleanup [simp]: "batches (without_cleanup tr) = []"
  by (induction tr rule: batches.induct) simp_all

lemma submitted_without_cleanup [simp]: "submitted (without_cleanup tr) = []"
  by (induction tr rule: submitted.induct) simp_all




section \<open>The claims about pacing and about the second version\<close>

text \<open>
  C8: on a clock that only the sleeps advance, two successive gateway compose calls of a
  run of compose are issued at least 1000 ms apart, whatever the calls take and whether the
  run returns or stops at a failing call; so is it for the loop over the chunks of any
  positive chunk size. The interval is the constant \<^verbatim>\<open>sleep(1)\<close> of the source.
\<close>

theorem compose_calls_one_second_apart:
  "(\<forall>res s' tr. compose gw p slices s = Some (res, s', tr) \<longrightarrow>
       length (call_times t tr) = length (compose_calls tr)
       \<and> (\<forall>i. Suc i < length (call_times t tr) \<longrightarrow>
             call_times t tr ! i + 1000 \<le> call_times t tr ! Suc i))
   \<and> (0 < k \<longrightarrow>
        (\<exists>cs. generate_composition_chunks slices k = Some cs
           \<and> (\<forall>x r x' tr. compose_loop gw fb cs x = (r, x', tr) \<longrightarrow>
                 (\<forall>i. Suc i < length (call_times t tr) \<longrightarrow>
                    call_times t tr ! i + 1000 \<le> call_times t tr ! Suc i))))"
proof (intro conjI allI impI)
  fix res s' tr
  assume run: "compose gw p slices s = Some (res, s', tr)"
  show "length (call_times t tr) = length (compose_calls tr)"
    by (rule length_call_times)
  fix i assume "Suc i < length (call_times t tr)"
  with run show "call_times t tr ! i + 1000 \<le> call_times t tr ! Suc i"
    by (rule compose_call_times)
next
  assume k: "0 < k"
  show "\<exists>cs. generate_composition_chunks slices k = Some cs
           \<and> (\<forall>x r x' tr. compose_loop gw fb cs x = (r, x', tr) \<longrightarrow>
                 (\<forall>i. Suc i < length (call_times t tr) \<longrightarrow>
                    call_times t tr ! i + 1000 \<le> call_times t tr ! Suc i))"
  proof (intro exI[of _ "chunk_list (nat k) slices"] conjI allI impI)
    show "generate_composition_chunks slices k = Some (chunk_list (nat k) slices)"
      using k by (rule chunks_pos)
    fix x r x' tr i
    assume "compose_loop gw fb (chunk_list (nat k) slices) x = (r, x', tr)"
      and "Suc i < length (call_times t tr)"
    then show "call_times t tr ! i + 1000 \<le> call_times t tr ! Suc i"
      by (rule loop_call_times)
  qed
qed

theorem compose_calls_one_second_apart_witness:
  "(0::int) < 1
   \<and> generate_composition_chunks [Blob ''a'', Blob ''b''] 1 = Some [[Blob ''a''], [Blob ''b'']]
   \<and> call_times 0 (snd (snd (compose_loop (spec_gateway no_failure 31) (Blob ''out'')
         [[Blob ''a''], [Blob ''b'']] empty_service))) = [0, 1005]
   \<and> call_times 0 (trace_of (compose (spec_gateway no_failure 31) ''out''
         (replicate 31 (Blob ''a'') @ [Blob ''b'']) empty_service)) = [0, 1155]"
proof -
  have a: "generate_composition_chunks [Blob ''a'', Blob ''b''] 1
      = Some [[Blob ''a''], [Blob ''b'']]"
    by (simp add: generate_composition_chunks.simps slice_to_def slice_from_def)
  have b: "call_times 0 (snd (snd (compose_loop (spec_gateway no_failure 31) (Blob ''out'')
         [[Blob ''a''], [Blob ''b'']] empty_service))) = [0, 1005]"
    by (simp add: spec_gateway_def empty_service_def no_failure_def slice_from_Cons_1
          delete_objects_concurrent_def)
  have c: "call_times 0 (trace_of (compose (spec_gateway no_failure 31) ''out''
         (replicate 31 (Blob ''a'') @ [Blob ''b'']) empty_service)) = [0, 1155]"
    by code_simp
  from compose_calls_one_second_apart
         [of "spec_gateway no_failure 31" "''out''" "replicate 31 (Blob ''a'') @ [Blob ''b'']"
             empty_service 0 1 "Blob ''out''"]
       a b c
  show ?thesis by simp
qed



section \<open>Runs on the storage service of the specification\<close>







section \<open>The claims about the content of the accumulator\<close>








section \<open>The loop on the heap\<close>

lemma compose_loop_heap_run:
  assumes "0 < k" and "a < next_free h"
    and "compose_loop gw fb (chunk_list (nat k) (cells h a)) s = (r, s', tr)"
  shows "\<exists>h'. compose_loop_heap gw fb k a h s = Some (r, h', s', tr)
                \<and> (\<forall>b<next_free h. cells h' b = cells h b)
                \<and> next_free h \<le> next_free h'"
  using assms(2,3)
proof (induction "length (cells h a)" arbitrary: h a s r s' tr rule: less_induct)
  case less
  let ?xs = "cells h a"
  let ?n = "next_free h"
  from assms(1) have nk: "0 < nat k" by simp
  show ?case
  proof (cases "?xs = []")
    case True
    with less.prems(2) show ?thesis
      by (subst compose_loop_heap.simps) simp
  next
    case False
    let ?chunk = "take (nat k) ?xs"
    define h2 where "h2 = h\<lparr>cells := (cells h)(?n := fb # ?chunk), next_free := Suc ?n\<rparr>"
    define h3 where "h3 = h2\<lparr>cells := (cells h2)(Suc ?n := ?chunk), next_free := Suc (Suc ?n)\<rparr>"
    define h4 where "h4 = h3\<lparr>cells := (cells h3)(Suc (Suc ?n) := drop (nat k) ?xs),
                          next_free := Suc (Suc (Suc ?n))\<rparr>"
    have a_n: "a \<noteq> ?n" "a \<noteq> Suc ?n" using less.prems(1) by simp_all
    have e1: "new_list (slice_to ?xs k) h
        = (?n, h\<lparr>cells := (cells h)(?n := ?chunk), next_free := Suc ?n\<rparr>)"
      using assms(1) by (simp add: new_list_def slice_to_pos)
    have e2: "list_insert0 ?n fb (h\<lparr>cells := (cells h)(?n := ?chunk), next_free := Suc ?n\<rparr>) = h2"
      by (simp add: list_insert0_def h2_def)
    have c2: "cells h2 ?n = fb # ?chunk" by (simp add: h2_def)
    have nf2: "next_free h2 = Suc ?n" by (simp add: h2_def)
    have e3: "new_list (slice_from (fb # ?chunk) 1) h2 = (Suc ?n, h3)"
      by (simp add: new_list_def nf2 slice_from_Cons_1 h3_def)
    have c3: "cells h3 (Suc ?n) = ?chunk" by (simp add: h3_def)
    have c3a: "cells h3 a = ?xs" using a_n by (simp add: h3_def h2_def)
    have nf3: "next_free h3 = Suc (Suc ?n)" by (simp add: h3_def)
    have e4: "new_list (slice_from (cells h3 a) k) h3 = (Suc (Suc ?n), h4)"
      using assms(1) by (simp add: new_list_def c3a nf3 slice_from_pos h4_def)
    have frame2: "\<forall>b<?n. cells h2 b = cells h b" by (simp add: h2_def)
    have frame4: "\<forall>b<?n. cells h4 b = cells h b" by (simp add: h4_def h3_def h2_def)
    have nf4: "next_free h4 = Suc (Suc (Suc ?n))" by (simp add: h4_def)
    have c4: "cells h4 (Suc (Suc ?n)) = drop (nat k) ?xs" by (simp add: h4_def)
    have chunks: "chunk_list (nat k) ?xs = ?chunk # chunk_list (nat k) (drop (nat k) ?xs)"
      using nk False by (rule chunk_list_step)
    obtain o1 s1 where call: "compose_call gw fb (fb # ?chunk) s = (o1, s1)"
      by (cases "compose_call gw fb (fb # ?chunk) s")
    show ?thesis
    proof (cases o1)
      case (Some e)
      have "compose_loop_heap gw fb k a h s = Some (Some e, h2, s1, [EvCompose fb (fb # ?chunk)])"
        using False call Some
        by (subst compose_loop_heap.simps) (simp add: e1 e2 c2 Let_def)
      moreover have "compose_loop gw fb (chunk_list (nat k) ?xs) s
          = (Some e, s1, [EvCompose fb (fb # ?chunk)])"
        using call Some by (simp add: chunks)
      moreover have "next_free h \<le> next_free h2" by (simp add: h2_def)
      ultimately show ?thesis using frame2 less.prems(2) by simp
    next
      case None
      have dec: "length (cells h4 (Suc (Suc ?n))) < length ?xs"
        using False nk by (simp add: c4)
      have in4: "Suc (Suc ?n) < next_free h4" by (simp add: nf4)
      obtain r2 s2 tr2 where
        lp: "compose_loop gw fb (chunk_list (nat k) (drop (nat k) ?xs)) s1 = (r2, s2, tr2)"
        by (cases "compose_loop gw fb (chunk_list (nat k) (drop (nat k) ?xs)) s1")
      then have "compose_loop gw fb (chunk_list (nat k) (cells h4 (Suc (Suc ?n)))) s1
          = (r2, s2, tr2)" by (simp add: c4)
      from less.hyps[OF dec in4 this] obtain h' where
        rec: "compose_loop_heap gw fb k (Suc (Suc ?n)) h4 s1 = Some (r2, h', s2, tr2)"
        and fr: "\<forall>b<next_free h4. cells h' b = cells h4 b"
        and nf: "next_free h4 \<le> next_free h'"
        by auto
      let ?tr = "[EvCompose fb (fb # ?chunk), EvComposeDone]
                 @ delete_objects_concurrent ?chunk @ [EvSleep 1000] @ tr2"
      have "compose_loop_heap gw fb k a h s = Some (r2, h', s2, ?tr)"
        using False call None rec
        by (subst compose_loop_heap.simps) (simp add: e1 e2 c2 e3 c3 e4 Let_def)
      moreover have "compose_loop gw fb (chunk_list (nat k) ?xs) s = (r2, s2, ?tr)"
        using call None lp by (simp add: chunks slice_from_Cons_1)
      moreover have "\<forall>b<?n. cells h' b = cells h b"
        using fr frame4 nf4 by simp
      moreover have "next_free h \<le> next_free h'" using nf nf4 by simp
      ultimately show ?thesis using less.prems(2) by simp
    qed
  qed
qed


section \<open>The claim about the caller's list\<close>

text \<open>
  C10: with the lists as objects in a heap, a run of compose on the list at an allocated
  address returns, leaves that list and every other list that existed before the run as it
  was, and has the outcome, storage state and trace of compose on the value of the list.
  The chunk that \<^verbatim>\<open>chunk.insert(0, final_blob)\<close> changes is a list at a fresh address. The
  same holds for the loop over chunks of any positive size.
\<close>

theorem compose_leaves_slice_list_unchanged:
  assumes "slices < next_free h"
  shows "(\<exists>res h' s' tr. compose_heap gw p slices h s = Some (res, h', s', tr)
            \<and> cells h' slices = cells h slices
            \<and> (\<forall>a<next_free h. cells h' a = cells h a)
            \<and> compose gw p (cells h slices) s = Some (res, s', tr))
     \<and> (0 < k \<longrightarrow>
          (\<exists>r h' s' tr. compose_loop_heap gw fb k slices h s = Some (r, h', s', tr)
             \<and> cells h' slices = cells h slices
             \<and> (\<forall>a<next_free h. cells h' a = cells h a)))"
proof (intro conjI impI)
  obtain o1 s1 where up: "upload_from_file gw (Blob p) s = (o1, s1)"
    by (cases "upload_from_file gw (Blob p) s")
  show "\<exists>res h' s' tr. compose_heap gw p slices h s = Some (res, h', s', tr)
            \<and> cells h' slices = cells h slices
            \<and> (\<forall>a<next_free h. cells h' a = cells h a)
            \<and> compose gw p (cells h slices) s = Some (res, s', tr)"
  proof (cases o1)
    case (Some e)
    with up have "compose_heap gw p slices h s = Some (Inl e, h, s1, [EvUpload (Blob p)])"
      and "compose gw p (cells h slices) s = Some (Inl e, s1, [EvUpload (Blob p)])"
      by (simp_all add: compose_heap_def compose_unfold Let_def)
    then show ?thesis by simp
  next
    case None
    obtain r s2 tr where lp:
      "compose_loop gw (Blob p) (chunk_list (nat default_chunk_size) (cells h slices)) s1
         = (r, s2, tr)"
      by (cases "compose_loop gw (Blob p)
                   (chunk_list (nat default_chunk_size) (cells h slices)) s1")
    have pos: "0 < default_chunk_size" by (simp add: default_chunk_size_def)
    from compose_loop_heap_run[OF pos assms lp] obtain h' where
      run: "compose_loop_heap gw (Blob p) default_chunk_size slices h s1 = Some (r, h', s2, tr)"
      and fr: "\<forall>b<next_free h. cells h' b = cells h b"
      by blast
    from lp have lp31: "compose_loop gw (Blob p) (chunk_list 31 (cells h slices)) s1 = (r, s2, tr)"
      by (simp add: default_chunk_size_def)
    let ?res = "case r of None \<Rightarrow> Inr (Blob p) | Some e \<Rightarrow> Inl e"
    have "compose_heap gw p slices h s = Some (?res, h', s2, EvUpload (Blob p) # tr)"
      using up None run by (cases r) (simp_all add: compose_heap_def Let_def)
    moreover have "compose gw p (cells h slices) s = Some (?res, s2, EvUpload (Blob p) # tr)"
      using up None lp31 by (cases r) (simp_all add: compose_unfold)
    moreover from fr assms have "cells h' slices = cells h slices" by simp
    ultimately show ?thesis using fr by blast
  qed
next
  assume k: "0 < k"
  obtain r s2 tr where lp:
    "compose_loop gw fb (chunk_list (nat k) (cells h slices)) s = (r, s2, tr)"
    by (cases "compose_loop gw fb (chunk_list (nat k) (cells h slices)) s")
  from compose_loop_heap_run[OF k assms lp] obtain h' where
    run: "compose_loop_heap gw fb k slices h s = Some (r, h', s2, tr)"
    and fr: "\<forall>b<next_free h. cells h' b = cells h b"
    by blast
  from fr assms have "cells h' slices = cells h slices" by simp
  with run fr show "\<exists>r h' s' tr. compose_loop_heap gw fb k slices h s = Some (r, h', s', tr)
             \<and> cells h' slices = cells h slices
             \<and> (\<forall>a<next_free h. cells h' a = cells h a)"
    by blast
qed

theorem compose_leaves_slice_list_unchanged_witness:
  "(0::nat) < next_free (caller_heap [Blob ''a'', Blob ''b''])
   \<and> map_option (\<lambda>h. (cells h 0, cells h 1, cells h 2, cells h 3))
        (heap_of (compose_heap (spec_gateway no_failure 31) ''out'' 0
           (caller_heap [Blob ''a'', Blob ''b'']) empty_service))
     = Some ([Blob ''a'', Blob ''b''],
             [Blob ''out'', Blob ''a'', Blob ''b''],
             [Blob ''a'', Blob ''b''],
             [])"
proof -
  have a: "(0::nat) < next_free (caller_heap [Blob ''a'', Blob ''b''])"
    by (simp add: caller_heap_def)
  have b: "map_option (\<lambda>h. (cells h 0, cells h 1, cells h 2, cells h 3))
        (heap_of (compose_heap (spec_gateway no_failure 31) ''out'' 0
           (caller_heap [Blob ''a'', Blob ''b'']) empty_service))
     = Some ([Blob ''a'', Blob ''b''],
             [Blob ''out'', Blob ''a'', Blob ''b''],
             [Blob ''a'', Blob ''b''],
             [])"
    by code_simp
  from compose_leaves_slice_list_unchanged
         [OF a, of "spec_gateway no_failure 31" "''out''" empty_service 1 "Blob ''out''"] a b
  show ?thesis by simp
qed

end
